theory Spec2Isabelle
  imports Complex_Main "HOL-Library.Sublist"
begin

section \<open>Attack trees: data model\<close>

text \<open>
  The enumerations of \<^verbatim>\<open>attack-trees-analysis.py\<close>. Three of them share member
  names (\<^verbatim>\<open>LOW\<close>, \<^verbatim>\<open>MEDIUM\<close>, \<^verbatim>\<open>HIGH\<close>), so the members of \<^verbatim>\<open>Cost\<close> and
  \<^verbatim>\<open>DetectionRisk\<close> carry their class name as a prefix. Each enumeration comes with
  its \<^verbatim>\<open>.value\<close> and, where the code reads it, its \<^verbatim>\<open>.name\<close>.
\<close>

datatype NodeType = OR | AND | LEAF

datatype Difficulty = TRIVIAL | LOW | MEDIUM | HIGH | EXPERT

datatype Cost = Cost_FREE | Cost_LOW | Cost_MEDIUM | Cost_HIGH | Cost_VERY_HIGH

datatype DetectionRisk =
  DetectionRisk_NONE | DetectionRisk_LOW | DetectionRisk_MEDIUM | DetectionRisk_HIGH
  | DetectionRisk_CERTAIN

fun NodeType_value :: "NodeType \<Rightarrow> string" where
  "NodeType_value OR = ''or''"
| "NodeType_value AND = ''and''"
| "NodeType_value LEAF = ''leaf''"

fun Difficulty_value :: "Difficulty \<Rightarrow> int" where
  "Difficulty_value TRIVIAL = 1"
| "Difficulty_value LOW = 2"
| "Difficulty_value MEDIUM = 3"
| "Difficulty_value HIGH = 4"
| "Difficulty_value EXPERT = 5"

fun Difficulty_name :: "Difficulty \<Rightarrow> string" where
  "Difficulty_name TRIVIAL = ''TRIVIAL''"
| "Difficulty_name LOW = ''LOW''"
| "Difficulty_name MEDIUM = ''MEDIUM''"
| "Difficulty_name HIGH = ''HIGH''"
| "Difficulty_name EXPERT = ''EXPERT''"

fun Cost_value :: "Cost \<Rightarrow> int" where
  "Cost_value Cost_FREE = 0"
| "Cost_value Cost_LOW = 1"
| "Cost_value Cost_MEDIUM = 2"
| "Cost_value Cost_HIGH = 3"
| "Cost_value Cost_VERY_HIGH = 4"

fun Cost_name :: "Cost \<Rightarrow> string" where
  "Cost_name Cost_FREE = ''FREE''"
| "Cost_name Cost_LOW = ''LOW''"
| "Cost_name Cost_MEDIUM = ''MEDIUM''"
| "Cost_name Cost_HIGH = ''HIGH''"
| "Cost_name Cost_VERY_HIGH = ''VERY_HIGH''"

fun DetectionRisk_value :: "DetectionRisk \<Rightarrow> int" where
  "DetectionRisk_value DetectionRisk_NONE = 0"
| "DetectionRisk_value DetectionRisk_LOW = 1"
| "DetectionRisk_value DetectionRisk_MEDIUM = 2"
| "DetectionRisk_value DetectionRisk_HIGH = 3"
| "DetectionRisk_value DetectionRisk_CERTAIN = 4"

fun DetectionRisk_name :: "DetectionRisk \<Rightarrow> string" where
  "DetectionRisk_name DetectionRisk_NONE = ''NONE''"
| "DetectionRisk_name DetectionRisk_LOW = ''LOW''"
| "DetectionRisk_name DetectionRisk_MEDIUM = ''MEDIUM''"
| "DetectionRisk_name DetectionRisk_HIGH = ''HIGH''"
| "DetectionRisk_name DetectionRisk_CERTAIN = ''CERTAIN''"

text \<open>
  \<^verbatim>\<open>AttackAttributes\<close> is a plain dataclass. \<^verbatim>\<open>time_hours\<close> is only stored and
  copied, never computed with, so a real number stands for the float.
\<close>

record AttackAttributes =
  difficulty :: Difficulty
  cost :: Cost
  detection_risk :: DetectionRisk
  time_hours :: real
  requires_insider :: bool
  requires_physical :: bool

text \<open>
  \<^verbatim>\<open>AttackNode\<close> holds a list of its own kind, so it is a datatype with one
  selector per field. The field \<^verbatim>\<open>id\<close> is the selector \<open>ident\<close>, since \<open>id\<close> is
  the identity function of HOL. A node owns its children: the model is a tree of values,
  without sharing or cycles.
\<close>

datatype AttackNode = AttackNode
  (ident: string)
  (name: string)
  (description: string)
  (node_type: NodeType)
  (attributes: AttackAttributes)
  (children: "AttackNode list")
  (mitigations: "string list")
  (cve_refs: "string list")
  (file_refs: "string list")

record AttackTree =
  tree_name :: string
  tree_description :: string
  root :: AttackNode
  version :: string
  severity :: string

lemma size_children: "size_list size (children node) < size node"
  by (cases node) simp

lemma size_child: "c \<in> set (children node) \<Longrightarrow> size c < size node"
proof -
  assume "c \<in> set (children node)"
  then have "size c \<le> size_list size (children node)"
    by (rule size_list_estimation') simp
  then show ?thesis
    using size_children [of node] by simp
qed

section \<open>Path search\<close>

text \<open>
  \<^verbatim>\<open>_path_score\<close>: the sum of the chosen attribute over the nodes of kind LEAF in the
  path; an unknown metric scores 0. The enumeration values are Python ints, so the sum is
  an \<open>int\<close>.
\<close>

definition path_score :: "AttackNode list \<Rightarrow> string \<Rightarrow> int" where
  "path_score path metric =
     (if metric = ''difficulty'' then
        sum_list (map (\<lambda>n. Difficulty_value (difficulty (attributes n)))
                      (filter (\<lambda>n. node_type n = LEAF) path))
      else if metric = ''cost'' then
        sum_list (map (\<lambda>n. Cost_value (cost (attributes n)))
                      (filter (\<lambda>n. node_type n = LEAF) path))
      else if metric = ''detection'' then
        sum_list (map (\<lambda>n. DetectionRisk_value (detection_risk (attributes n)))
                      (filter (\<lambda>n. node_type n = LEAF) path))
      else 0)"

text \<open>
  \<^verbatim>\<open>best_score\<close> starts as \<^verbatim>\<open>float('inf')\<close> and is an int score afterwards.
  \<open>score_less\<close> is the test \<^verbatim>\<open>score < best_score\<close>: every int is below infinity.
\<close>

datatype best_score = Infinity | Score int

fun score_less :: "int \<Rightarrow> best_score \<Rightarrow> bool" where
  "score_less s Infinity = True"
| "score_less s (Score b) = (s < b)"

text \<open>
  \<^verbatim>\<open>_find_path\<close> with its two \<^verbatim>\<open>for\<close> loops. \<open>find_path_or\<close> is the loop of the OR
  branch, carrying \<^verbatim>\<open>best_path\<close> (\<open>None\<close> as in the source) and \<^verbatim>\<open>best_score\<close>;
  \<open>find_path_and\<close> is the loop of the AND branch, carrying \<^verbatim>\<open>path\<close>. The final
  \<^verbatim>\<open>best_path or []\<close> yields the empty list for \<^verbatim>\<open>None\<close> and for an empty path.
\<close>

function find_path :: "AttackNode \<Rightarrow> string \<Rightarrow> AttackNode list"
  and find_path_or ::
    "AttackNode list \<Rightarrow> string \<Rightarrow> AttackNode list option \<Rightarrow> best_score
       \<Rightarrow> AttackNode list option \<times> best_score"
  and find_path_and :: "AttackNode list \<Rightarrow> string \<Rightarrow> AttackNode list \<Rightarrow> AttackNode list"
where
  "find_path node minimize =
     (if node_type node = LEAF then [node]
      else if children node = [] then [node]
      else if node_type node = OR then
        (case find_path_or (children node) minimize None Infinity of
           (best_path, best) \<Rightarrow>
             [node] @ (case best_path of None \<Rightarrow> [] | Some p \<Rightarrow> (if p = [] then [] else p)))
      else find_path_and (children node) minimize [node])"
| "find_path_or [] minimize best_path best = (best_path, best)"
| "find_path_or (child # rest) minimize best_path best =
     (let child_path = find_path child minimize;
          score = path_score child_path minimize
      in if score_less score best
         then find_path_or rest minimize (Some child_path) (Score score)
         else find_path_or rest minimize best_path best)"
| "find_path_and [] minimize path = path"
| "find_path_and (child # rest) minimize path =
     find_path_and rest minimize (path @ find_path child minimize)"
  by pat_completeness auto
termination
  by (relation "measure (\<lambda>x. case x of
          Inl (node, _) \<Rightarrow> size node
        | Inr (Inl (cs, _)) \<Rightarrow> size_list size cs
        | Inr (Inr (cs, _)) \<Rightarrow> size_list size cs)")
     (auto simp: size_children)

declare find_path.simps(1) [simp del]

definition find_easiest_path :: "AttackTree \<Rightarrow> AttackNode list" where
  "find_easiest_path t = find_path (root t) ''difficulty''"

definition find_cheapest_path :: "AttackTree \<Rightarrow> AttackNode list" where
  "find_cheapest_path t = find_path (root t) ''cost''"

definition find_stealthiest_path :: "AttackTree \<Rightarrow> AttackNode list" where
  "find_stealthiest_path t = find_path (root t) ''detection''"

section \<open>Leaf enumeration\<close>

text \<open>
  \<^verbatim>\<open>_collect_leaves\<close> appends to the list it is given; the model returns the extended
  list. \<open>collect_leaves_children\<close> is its \<^verbatim>\<open>for\<close> loop over the children, which runs
  for every node, whatever its kind.
\<close>

function collect_leaves :: "AttackNode \<Rightarrow> AttackNode list \<Rightarrow> AttackNode list"
  and collect_leaves_children :: "AttackNode list \<Rightarrow> AttackNode list \<Rightarrow> AttackNode list"
where
  "collect_leaves node leaves =
     collect_leaves_children (children node)
       (if node_type node = LEAF then leaves @ [node] else leaves)"
| "collect_leaves_children [] leaves = leaves"
| "collect_leaves_children (child # rest) leaves =
     collect_leaves_children rest (collect_leaves child leaves)"
  by pat_completeness auto
termination
  by (relation "measure (\<lambda>x. case x of
          Inl (node, _) \<Rightarrow> size node
        | Inr (cs, _) \<Rightarrow> size_list size cs)")
     (auto simp: size_children)

declare collect_leaves.simps(1) [simp del]

definition get_all_leaf_attacks :: "AttackTree \<Rightarrow> AttackNode list" where
  "get_all_leaf_attacks t = collect_leaves (root t) []"

definition get_unmitigated_attacks :: "AttackTree \<Rightarrow> AttackNode list" where
  "get_unmitigated_attacks t = filter (\<lambda>n. mitigations n = []) (get_all_leaf_attacks t)"

section \<open>Serialization\<close>

text \<open>
  The value built by \<^verbatim>\<open>to_dict\<close>: strings, numbers, lists and dictionaries. A
  dictionary is the list of its items in insertion order; the keys of each literal are
  distinct.
\<close>

datatype json =
  JString string
| JNumber real
| JList "json list"
| JDict "(string \<times> json) list"

function node_to_dict :: "AttackNode \<Rightarrow> json" where
  "node_to_dict node = JDict
     [(''id'', JString (ident node)),
      (''name'', JString (name node)),
      (''description'', JString (description node)),
      (''type'', JString (NodeType_value (node_type node))),
      (''attributes'', JDict
         [(''difficulty'', JString (Difficulty_name (difficulty (attributes node)))),
          (''cost'', JString (Cost_name (cost (attributes node)))),
          (''detection_risk'',
             JString (DetectionRisk_name (detection_risk (attributes node)))),
          (''time_hours'', JNumber (time_hours (attributes node)))]),
      (''mitigations'', JList (map JString (mitigations node))),
      (''file_refs'', JList (map JString (file_refs node))),
      (''children'', JList (map node_to_dict (children node)))]"
  by pat_completeness auto
termination
  by (relation "measure size") (auto simp: size_child)

declare node_to_dict.simps [simp del]

definition to_dict :: "AttackTree \<Rightarrow> json" where
  "to_dict t = JDict
     [(''name'', JString (tree_name t)),
      (''description'', JString (tree_description t)),
      (''severity'', JString (severity t)),
      (''version'', JString (version t)),
      (''root'', node_to_dict (root t))]"

section \<open>Mermaid exporter\<close>

text \<open>
  Every \<^verbatim>\<open>self._lines.append\<close> of the exporter adds one line built by one format
  string. A line is kept as the format it was built by together with the values
  substituted, and \<open>render_line\<close> is the string itself:
  \<open>Style\<close> for \<^verbatim>\<open>f"    style {node_id} {style}"\<close>,
  \<open>Shape\<close> for \<^verbatim>\<open>f"    {shape}"\<close>,
  \<open>Edge\<close> for \<^verbatim>\<open>f"    {parent_id} {connector} {node_id}"\<close>,
  and \<open>Text\<close> for the literal lines of the header and the legend.
\<close>

datatype line =
  Text string
| Style string string
| Shape string
| Edge string string string

fun render_line :: "line \<Rightarrow> string" where
  "render_line (Text s) = s"
| "render_line (Style node_id style) = ''    style '' @ node_id @ '' '' @ style"
| "render_line (Shape shape) = ''    '' @ shape"
| "render_line (Edge parent_id connector node_id) =
     ''    '' @ parent_id @ '' '' @ connector @ '' '' @ node_id"

text \<open>The decimal digits of a natural number, as \<^verbatim>\<open>f"{self._node_count}"\<close> prints it.\<close>

function str_nat :: "nat \<Rightarrow> string" where
  "str_nat n =
     (if n < 10 then [''0123456789'' ! n]
      else str_nat (n div 10) @ [''0123456789'' ! (n mod 10)])"
  by pat_completeness auto
termination
  by (relation "measure id") auto

declare str_nat.simps [simp del]

definition quote :: string where
  "quote = [CHR 0x27]"

definition newline :: string where
  "newline = [CHR 0x0A]"

fun join_lines :: "string list \<Rightarrow> string" where
  "join_lines [] = []"
| "join_lines [s] = s"
| "join_lines (s # t # rest) = s @ newline @ join_lines (t # rest)"

text \<open>
  The exporter object: the tree and the three private fields \<^verbatim>\<open>_lines\<close>,
  \<^verbatim>\<open>_node_count\<close> and \<^verbatim>\<open>_node_ids\<close>. Methods take the exporter and return it
  updated.
\<close>

record MermaidExporter =
  tree :: AttackTree
  lines :: "line list"
  node_count :: nat
  node_ids :: "string \<rightharpoonup> string"

definition MermaidExporter_init :: "AttackTree \<Rightarrow> MermaidExporter" where
  "MermaidExporter_init t = \<lparr>tree = t, lines = [], node_count = 0, node_ids = Map.empty\<rparr>"

text \<open>
  \<^verbatim>\<open>_get_leaf_style\<close>. The colour table is the dictionary literal of the source, looked
  up with the default \<^verbatim>\<open>"fill:#gray"\<close>; an empty \<^verbatim>\<open>has_mitigation\<close> string is false.
\<close>

definition colors :: "(Difficulty \<times> string) list" where
  "colors =
     [(TRIVIAL, ''fill:#ff6b6b,stroke:#c92a2a,stroke-width:3px''),
      (LOW, ''fill:#ffa06b,stroke:#e67700,stroke-width:2px''),
      (MEDIUM, ''fill:#ffd93d,stroke:#fab005,stroke-width:2px''),
      (HIGH, ''fill:#6bcb77,stroke:#2f9e44,stroke-width:2px''),
      (EXPERT, ''fill:#4d96ff,stroke:#1971c2,stroke-width:2px'')]"

definition get_leaf_style :: "AttackNode \<Rightarrow> string" where
  "get_leaf_style node =
     (let color = (case map_of colors (difficulty (attributes node)) of
                     Some c \<Rightarrow> c | None \<Rightarrow> ''fill:#gray'');
          has_mitigation =
            (if mitigations node \<noteq> [] then ''stroke:#51cf66,stroke-width:3px'' else [])
      in if has_mitigation = [] then color else ''fill:#d3f9d8,'' @ has_mitigation)"

text \<open>
  \<^verbatim>\<open>_export_node\<close>. The steps follow the source: look the node's \<^verbatim>\<open>id\<close> up in the
  memo or draw a fresh identifier from the counter; build the shape by kind (a LEAF also
  appends its style line first); append the shape line; append an edge line when
  \<^verbatim>\<open>parent_id\<close> is true (neither \<^verbatim>\<open>None\<close> nor empty), the connector chosen by
  \<^verbatim>\<open>node.node_type\<close>; then export the children, \<open>export_children\<close> being that loop.
\<close>

function export_node ::
    "AttackNode \<Rightarrow> string option \<Rightarrow> MermaidExporter \<Rightarrow> string \<times> MermaidExporter"
  and export_children ::
    "AttackNode list \<Rightarrow> string \<Rightarrow> MermaidExporter \<Rightarrow> MermaidExporter"
where
  "export_node node parent_id e =
     (let (node_id, e1) =
            (case node_ids e (ident node) of
               Some known \<Rightarrow> (known, e)
             | None \<Rightarrow>
                 (let fresh = ''N'' @ str_nat (node_count e)
                  in (fresh, e\<lparr>node_count := node_count e + 1,
                               node_ids := (node_ids e)(ident node \<mapsto> fresh)\<rparr>)));
          (shape, e2) =
            (if node_type node = OR then
               (node_id @ ''(('' @ quote @ name node @ quote @ '')'', e1)
             else if node_type node = AND then
               (node_id @ ''['' @ quote @ name node @ quote @ '']'', e1)
             else
               (node_id @ ''['' @ quote @ name node @ quote @ '']'',
                e1\<lparr>lines := lines e1 @ [Style node_id (get_leaf_style node)]\<rparr>));
          e3 = e2\<lparr>lines := lines e2 @ [Shape shape]\<rparr>;
          e4 = (case parent_id of
                  None \<Rightarrow> e3
                | Some p \<Rightarrow>
                    if p = [] then e3
                    else e3\<lparr>lines := lines e3 @
                           [Edge p (if node_type node \<noteq> AND then ''-->'' else ''==>'')
                              node_id]\<rparr>)
      in (node_id, export_children (children node) node_id e4))"
| "export_children [] node_id e = e"
| "export_children (child # rest) node_id e =
     export_children rest node_id (snd (export_node child (Some node_id) e))"
  by pat_completeness auto
termination
  by (relation "measure (\<lambda>x. case x of
          Inl (node, _) \<Rightarrow> size node
        | Inr (cs, _) \<Rightarrow> size_list size cs)")
     (auto simp: size_children)

declare export_node.simps(1) [simp del]

definition add_legend :: "MermaidExporter \<Rightarrow> MermaidExporter" where
  "add_legend e = e\<lparr>lines := lines e @
     [Text (newline @ ''    classDef trivial fill:#ff6b6b,stroke:#c92a2a,stroke-width:3px''),
      Text ''    classDef low fill:#ffa06b,stroke:#e67700,stroke-width:2px'',
      Text ''    classDef medium fill:#ffd93d,stroke:#fab005,stroke-width:2px'',
      Text ''    classDef high fill:#6bcb77,stroke:#2f9e44,stroke-width:2px'',
      Text ''    classDef expert fill:#4d96ff,stroke:#1971c2,stroke-width:2px'']\<rparr>"

definition export :: "MermaidExporter \<Rightarrow> string \<times> MermaidExporter" where
  "export e =
     (let e1 = e\<lparr>lines := [Text ''flowchart TD'']\<rparr>;
          e2 = snd (export_node (root (tree e1)) None e1);
          e3 = add_legend e2
      in (join_lines (map render_line (lines e3)), e3))"

section \<open>Reference traversals\<close>

text \<open>
  The direct traversal of a tree that the properties below compare the code with:
  \<open>preorder\<close> lists every node reachable from a node, parent before children, children
  in stored order, one entry per occurrence; \<open>tree_edges\<close> lists the (parent, child)
  pairs in the same order.
\<close>

function preorder :: "AttackNode \<Rightarrow> AttackNode list" where
  "preorder node = node # concat (map preorder (children node))"
  by pat_completeness auto
termination
  by (relation "measure size") (auto simp: size_child)

declare preorder.simps [simp del]

function tree_edges :: "AttackNode \<Rightarrow> (AttackNode \<times> AttackNode) list" where
  "tree_edges node = concat (map (\<lambda>c. (node, c) # tree_edges c) (children node))"
  by pat_completeness auto
termination
  by (relation "measure size") (auto simp: size_child)

declare tree_edges.simps [simp del]

text \<open>
  Re-walking a serialized tree: \<open>dict_get\<close> reads a key of a dictionary, \<open>list_items\<close>
  the items of a list value, \<open>walk_dict\<close> follows the nested \<^verbatim>\<open>children\<close> lists in
  pre-order. \<open>rose\<close> is a bare tree of labels: \<open>node_id_tree\<close> is the tree of
  \<^verbatim>\<open>id\<close> fields of a node, \<open>dict_id_tree\<close> the tree of \<^verbatim>\<open>"id"\<close> entries of a
  dictionary.
\<close>

fun dict_get :: "json \<Rightarrow> string \<Rightarrow> json option" where
  "dict_get (JDict items) key = map_of items key"
| "dict_get _ key = None"

fun list_items :: "json option \<Rightarrow> json list" where
  "list_items (Some (JList xs)) = xs"
| "list_items _ = []"

lemma size_map_of:
  "map_of items key = Some v \<Longrightarrow> size v \<le> size_list (size_prod (\<lambda>_. 0) size) items"
  by (induction items) (auto split: if_splits)

lemma list_items_member: "c \<in> set (list_items v) \<Longrightarrow> \<exists>xs. v = Some (JList xs) \<and> c \<in> set xs"
  by (cases v rule: list_items.cases) simp_all

lemma size_dict_child:
  assumes "c \<in> set (list_items (dict_get d ''children''))"
  shows "size c < size d"
proof (cases d)
  case (JDict items)
  with list_items_member [OF assms] obtain xs
    where get: "map_of items ''children'' = Some (JList xs)" and c: "c \<in> set xs"
    by auto
  from c have "size c \<le> size_list size xs"
    by (rule size_list_estimation') simp
  moreover from size_map_of [OF get]
  have "size_list size xs < size_list (size_prod (\<lambda>_. 0) size) items"
    by simp
  ultimately show ?thesis using JDict by simp
qed (use assms in simp_all)

function walk_dict :: "json \<Rightarrow> json list" where
  "walk_dict d = d # concat (map walk_dict (list_items (dict_get d ''children'')))"
  by pat_completeness auto
termination
  by (relation "measure size") (auto simp: size_dict_child)

declare walk_dict.simps [simp del]

datatype 'a rose = Rose 'a "'a rose list"

function node_id_tree :: "AttackNode \<Rightarrow> string rose" where
  "node_id_tree node = Rose (ident node) (map node_id_tree (children node))"
  by pat_completeness auto
termination
  by (relation "measure size") (auto simp: size_child)

declare node_id_tree.simps [simp del]

function dict_id_tree :: "json \<Rightarrow> json option rose" where
  "dict_id_tree d =
     Rose (dict_get d ''id'') (map dict_id_tree (list_items (dict_get d ''children'')))"
  by pat_completeness auto
termination
  by (relation "measure size") (auto simp: size_dict_child)

declare dict_id_tree.simps [simp del]

text \<open>
  The lines of a diagram by kind, and the lines a walk emits when every node's diagram
  identifier is read from a given memo \<open>M\<close>: \<open>visit_lines\<close> are the lines of one node,
  \<open>tree_lines\<close> those of a node and its descendants.
\<close>

fun is_Style :: "line \<Rightarrow> bool" where
  "is_Style (Style node_id style) = True"
| "is_Style _ = False"

fun is_Shape :: "line \<Rightarrow> bool" where
  "is_Shape (Shape shape) = True"
| "is_Shape _ = False"

fun is_Edge :: "line \<Rightarrow> bool" where
  "is_Edge (Edge parent_id connector node_id) = True"
| "is_Edge _ = False"

definition shape_of :: "string \<Rightarrow> AttackNode \<Rightarrow> string" where
  "shape_of node_id node =
     (if node_type node = OR then node_id @ ''(('' @ quote @ name node @ quote @ '')''
      else node_id @ ''['' @ quote @ name node @ quote @ '']'')"

definition visit_lines :: "string \<Rightarrow> AttackNode \<Rightarrow> string option \<Rightarrow> line list" where
  "visit_lines node_id node parent_id =
     (if node_type node = LEAF then [Style node_id (get_leaf_style node)] else [])
     @ [Shape (shape_of node_id node)]
     @ (case parent_id of
          None \<Rightarrow> []
        | Some p \<Rightarrow>
            if p = [] then []
            else [Edge p (if node_type node = AND then ''==>'' else ''-->'') node_id])"

function tree_lines :: "(string \<rightharpoonup> string) \<Rightarrow> AttackNode \<Rightarrow> string option \<Rightarrow> line list" where
  "tree_lines M node parent_id =
     visit_lines (the (M (ident node))) node parent_id
     @ concat (map (\<lambda>c. tree_lines M c (Some (the (M (ident node))))) (children node))"
  by pat_completeness auto
termination
  by (relation "measure (\<lambda>(M, node, parent_id). size node)") (auto simp: size_child)

declare tree_lines.simps [simp del]

text \<open>
  The invariant of the exporter's memo and counter: finitely many ids are known, the
  counter is their number, and no identifier is empty. \<open>memo_step e e' ids\<close> says that
  \<open>e'\<close> keeps every entry of the memo of \<open>e\<close>, knows the ids \<open>ids\<close> in addition, and
  keeps the invariant.
\<close>

definition memo_ok :: "MermaidExporter \<Rightarrow> bool" where
  "memo_ok e \<longleftrightarrow>
     finite (dom (node_ids e)) \<and> node_count e = card (dom (node_ids e))
     \<and> [] \<notin> ran (node_ids e)"

definition memo_step :: "MermaidExporter \<Rightarrow> MermaidExporter \<Rightarrow> string set \<Rightarrow> bool" where
  "memo_step e e' ids \<longleftrightarrow>
     node_ids e \<subseteq>\<^sub>m node_ids e' \<and> dom (node_ids e') = dom (node_ids e) \<union> ids
     \<and> (memo_ok e \<longrightarrow> memo_ok e')"

text \<open>
  The exporter after \<^verbatim>\<open>MermaidExporter(tree).export()\<close>, and the diagram identifier its
  memo holds for a node's \<^verbatim>\<open>id\<close>.
\<close>

definition exported :: "AttackTree \<Rightarrow> MermaidExporter" where
  "exported t = snd (export (MermaidExporter_init t))"

definition diagram_id :: "AttackTree \<Rightarrow> AttackNode \<Rightarrow> string" where
  "diagram_id t node = the (node_ids (exported t) (ident node))"

section \<open>Example trees\<close>

text \<open>
  The two trees of the testable properties: an OR root and an AND root over the same two
  leaves, A (difficulty TRIVIAL, cost LOW) and B (difficulty HIGH, cost MEDIUM).
\<close>

definition default_attributes :: AttackAttributes where
  "default_attributes =
     \<lparr>difficulty = MEDIUM, cost = Cost_MEDIUM, detection_risk = DetectionRisk_MEDIUM,
      time_hours = 8, requires_insider = False, requires_physical = False\<rparr>"

definition leaf_A :: AttackNode where
  "leaf_A = AttackNode ''A'' ''attack A'' ''first step'' LEAF
     (default_attributes\<lparr>difficulty := TRIVIAL, cost := Cost_LOW\<rparr>) [] [] [] []"

definition leaf_B :: AttackNode where
  "leaf_B = AttackNode ''B'' ''attack B'' ''second step'' LEAF
     (default_attributes\<lparr>difficulty := HIGH, cost := Cost_MEDIUM\<rparr>) [] [''patch''] [] []"

definition or_root :: AttackNode where
  "or_root = AttackNode ''G'' ''goal'' ''either step'' OR default_attributes
     [leaf_A, leaf_B] [] [] []"

definition and_root :: AttackNode where
  "and_root = AttackNode ''G'' ''goal'' ''both steps'' AND default_attributes
     [leaf_A, leaf_B] [] [] []"

definition childless_or :: AttackNode where
  "childless_or = AttackNode ''E'' ''empty'' ''no way in'' OR default_attributes [] [] [] []"

definition example_tree :: AttackTree where
  "example_tree =
     \<lparr>tree_name = ''Example'', tree_description = ''two ways in'', root = or_root,
      version = ''1.0'', severity = ''Medium''\<rparr>"

text \<open>
  An OR goal over one AND step over leaf A, and an OR goal whose two children carry the
  same \<^verbatim>\<open>id\<close>.
\<close>

definition and_step :: AttackNode where
  "and_step = AttackNode ''S'' ''step'' ''all of'' AND default_attributes [leaf_A] [] [] []"

definition layered_tree :: AttackTree where
  "layered_tree =
     \<lparr>tree_name = ''Layered'', tree_description = ''OR over AND over LEAF'',
      root = AttackNode ''G'' ''goal'' ''any of'' OR default_attributes [and_step] [] [] [],
      version = ''1.0'', severity = ''Medium''\<rparr>"

definition leaf_A2 :: AttackNode where
  "leaf_A2 = AttackNode ''A'' ''other attack'' ''same id as A'' LEAF
     (default_attributes\<lparr>difficulty := EXPERT\<rparr>) [] [] [] []"

definition clash_tree :: AttackTree where
  "clash_tree =
     \<lparr>tree_name = ''Clash'', tree_description = ''two nodes, one id'',
      root = AttackNode ''G'' ''goal'' ''any of'' OR default_attributes
               [leaf_A, leaf_A2] [] [] [],
      version = ''1.0'', severity = ''Medium''\<rparr>"

section \<open>Path search: properties\<close>

lemma find_path_single:
  "node_type node = LEAF \<or> children node = [] \<Longrightarrow> find_path node minimize = [node]"
  by (subst find_path.simps) auto

lemma path_score_append:
  "path_score (xs @ ys) metric = path_score xs metric + path_score ys metric"
  by (simp add: path_score_def)

lemma path_score_Nil: "path_score [] metric = 0"
  by (simp add: path_score_def)

lemma path_score_Cons_inner:
  "node_type node \<noteq> LEAF \<Longrightarrow> path_score (node # path) metric = path_score path metric"
  by (simp add: path_score_def)

lemma path_score_concat:
  "path_score (concat ps) metric = sum_list (map (\<lambda>p. path_score p metric) ps)"
  by (induction ps) (simp_all add: path_score_Nil path_score_append)

lemma find_path_and_eq:
  "find_path_and cs minimize path = path @ concat (map (\<lambda>c. find_path c minimize) cs)"
  by (induction cs arbitrary: path) simp_all

lemma score_less_trans: "a < b \<Longrightarrow> score_less b bs \<Longrightarrow> score_less a bs"
  by (cases bs) simp_all

lemma score_less_between: "score_less a bs \<Longrightarrow> \<not> score_less b bs \<Longrightarrow> a < b"
  by (cases bs) simp_all

lemma find_path_or_split:
  "find_path_or cs m bp bs = (rp, rs) \<Longrightarrow>
     (rp = bp \<and> rs = bs \<and> (\<forall>x\<in>set cs. \<not> score_less (path_score (find_path x m) m) bs)) \<or>
     (\<exists>before c after. cs = before @ c # after
        \<and> rp = Some (find_path c m) \<and> rs = Score (path_score (find_path c m) m)
        \<and> score_less (path_score (find_path c m) m) bs
        \<and> (\<forall>x\<in>set before. path_score (find_path c m) m < path_score (find_path x m) m)
        \<and> (\<forall>x\<in>set after. path_score (find_path c m) m \<le> path_score (find_path x m) m))"
proof (induction cs arbitrary: bp bs)
  case Nil
  then show ?case by simp
next
  case (Cons c0 cs)
  let ?s = "\<lambda>x. path_score (find_path x m) m"
  show ?case
  proof (cases "score_less (?s c0) bs")
    case True
    with Cons.prems have run: "find_path_or cs m (Some (find_path c0 m)) (Score (?s c0)) = (rp, rs)"
      by (simp add: Let_def)
    from Cons.IH [OF run] show ?thesis
    proof (elim disjE conjE exE)
      assume "rp = Some (find_path c0 m)" "rs = Score (?s c0)"
        and rest: "\<forall>x\<in>set cs. \<not> score_less (?s x) (Score (?s c0))"
      then have "c0 # cs = [] @ c0 # cs \<and> rp = Some (find_path c0 m) \<and> rs = Score (?s c0)
          \<and> score_less (?s c0) bs \<and> (\<forall>x\<in>set []. ?s c0 < ?s x) \<and> (\<forall>x\<in>set cs. ?s c0 \<le> ?s x)"
        using True by auto
      then show ?thesis by blast
    next
      fix before c after
      assume split: "cs = before @ c # after" and res: "rp = Some (find_path c m)" "rs = Score (?s c)"
        and lt: "score_less (?s c) (Score (?s c0))"
        and bef: "\<forall>x\<in>set before. ?s c < ?s x" and aft: "\<forall>x\<in>set after. ?s c \<le> ?s x"
      from lt have "?s c < ?s c0" by simp
      then have "c0 # cs = (c0 # before) @ c # after \<and> rp = Some (find_path c m) \<and> rs = Score (?s c)
          \<and> score_less (?s c) bs \<and> (\<forall>x\<in>set (c0 # before). ?s c < ?s x) \<and> (\<forall>x\<in>set after. ?s c \<le> ?s x)"
        using split res bef aft True score_less_trans by auto
      then show ?thesis by blast
    qed
  next
    case False
    with Cons.prems have run: "find_path_or cs m bp bs = (rp, rs)"
      by (simp add: Let_def)
    from Cons.IH [OF run] show ?thesis
    proof (elim disjE conjE exE)
      assume "rp = bp" "rs = bs" "\<forall>x\<in>set cs. \<not> score_less (?s x) bs"
      then show ?thesis using False by simp
    next
      fix before c after
      assume split: "cs = before @ c # after" and res: "rp = Some (find_path c m)" "rs = Score (?s c)"
        and lt: "score_less (?s c) bs"
        and bef: "\<forall>x\<in>set before. ?s c < ?s x" and aft: "\<forall>x\<in>set after. ?s c \<le> ?s x"
      from lt False have "?s c < ?s c0" by (rule score_less_between)
      then have "c0 # cs = (c0 # before) @ c # after \<and> rp = Some (find_path c m) \<and> rs = Score (?s c)
          \<and> score_less (?s c) bs \<and> (\<forall>x\<in>set (c0 # before). ?s c < ?s x) \<and> (\<forall>x\<in>set after. ?s c \<le> ?s x)"
        using split res bef aft lt by auto
      then show ?thesis by blast
    qed
  qed
qed

lemma find_path_hd: "\<exists>rest. find_path node minimize = node # rest"
  by (subst find_path.simps) (auto simp: find_path_and_eq split: prod.splits option.splits)

lemma find_path_or_first:
  "cs \<noteq> [] \<Longrightarrow> \<exists>c\<in>set cs. find_path_or cs m None Infinity
      = (Some (find_path c m), Score (path_score (find_path c m) m))"
proof -
  assume ne: "cs \<noteq> []"
  obtain rp rs where run: "find_path_or cs m None Infinity = (rp, rs)"
    by (cases "find_path_or cs m None Infinity")
  from find_path_or_split [OF run] show ?thesis
  proof (elim disjE conjE exE)
    assume "\<forall>x\<in>set cs. \<not> score_less (path_score (find_path x m) m) Infinity"
    moreover from ne obtain x where "x \<in> set cs" by (cases cs) auto
    ultimately have False by auto
    then show ?thesis ..
  next
    fix before c after
    assume "cs = before @ c # after" "rp = Some (find_path c m)"
      "rs = Score (path_score (find_path c m) m)"
    then show ?thesis unfolding run by auto
  qed
qed

text \<open>
  Claim C3. For a node that is a LEAF, or whose children list is empty (a childless OR or
  AND node included), \<^verbatim>\<open>_find_path\<close> returns the one-element path holding the node.
  Under each of the three metrics the path of a LEAF scores that leaf's own attribute
  value, and the path of a childless OR or AND node scores 0, since \<^verbatim>\<open>_path_score\<close>
  sums over the LEAF nodes of the path only.
\<close>

theorem C3_leaf_or_childless_path:
  assumes "node_type node = LEAF \<or> children node = []"
  shows "find_path node minimize = [node]
    \<and> path_score (find_path node ''difficulty'') ''difficulty''
        = (if node_type node = LEAF then Difficulty_value (difficulty (attributes node)) else 0)
    \<and> path_score (find_path node ''cost'') ''cost''
        = (if node_type node = LEAF then Cost_value (cost (attributes node)) else 0)
    \<and> path_score (find_path node ''detection'') ''detection''
        = (if node_type node = LEAF then DetectionRisk_value (detection_risk (attributes node))
           else 0)"
  using assms by (simp add: find_path_single path_score_def)

theorem C3_leaf_or_childless_path_witness:
  "(node_type leaf_B = LEAF \<or> children leaf_B = [])
    \<and> find_path leaf_B ''cost'' = [leaf_B]
    \<and> path_score (find_path leaf_B ''difficulty'') ''difficulty'' = 4
    \<and> path_score (find_path leaf_B ''cost'') ''cost'' = 2
    \<and> path_score (find_path leaf_B ''detection'') ''detection'' = 2
    \<and> (node_type childless_or = LEAF \<or> children childless_or = [])
    \<and> find_path childless_or ''cost'' = [childless_or]
    \<and> path_score (find_path childless_or ''cost'') ''cost'' = 0"
  using C3_leaf_or_childless_path [of leaf_B "''cost''"]
    C3_leaf_or_childless_path [of childless_or "''cost''"]
  by (simp add: leaf_B_def childless_or_def default_attributes_def find_path_single
      path_score_def)

text \<open>
  Claim C10. For an OR node with at least one child, the loop of the OR branch ends with
  \<^verbatim>\<open>best_path\<close> assigned (not \<^verbatim>\<open>None\<close>) and non-empty, so the fallback of
  \<^verbatim>\<open>best_path or []\<close> is not taken: the returned path is the OR node followed by that
  non-empty path.
\<close>

theorem C10_or_best_path_assigned:
  assumes "node_type node = OR" and "children node \<noteq> []"
  shows "\<exists>p. fst (find_path_or (children node) minimize None Infinity) = Some p
           \<and> p \<noteq> [] \<and> find_path node minimize = node # p"
proof -
  from find_path_or_first [OF assms(2)] obtain c where
    run: "find_path_or (children node) minimize None Infinity
      = (Some (find_path c minimize), Score (path_score (find_path c minimize) minimize))"
    by blast
  obtain rest where hd: "find_path c minimize = c # rest"
    using find_path_hd by blast
  have "find_path node minimize = node # find_path c minimize"
    using assms run hd by (subst find_path.simps) simp
  with run hd show ?thesis by simp
qed

theorem C10_or_best_path_assigned_witness:
  "node_type or_root = OR \<and> children or_root \<noteq> []
    \<and> (\<exists>p. fst (find_path_or (children or_root) ''cost'' None Infinity) = Some p
           \<and> p \<noteq> [] \<and> find_path or_root ''cost'' = or_root # p)"
  using C10_or_best_path_assigned [of or_root "''cost''"]
  by (simp add: or_root_def)

text \<open>
  Claim C2. For an AND node with a non-empty children list, \<^verbatim>\<open>_find_path\<close> returns the
  node followed by the best paths of all its children, concatenated in the order of the
  children list, and the score of that path is the sum of the scores of the children's best
  paths (the AND node adds nothing).
\<close>

theorem C2_and_concatenates_children:
  assumes "node_type node = AND" and "children node \<noteq> []"
  shows "find_path node minimize
           = [node] @ concat (map (\<lambda>c. find_path c minimize) (children node))
    \<and> path_score (find_path node minimize) minimize
        = sum_list (map (\<lambda>c. path_score (find_path c minimize) minimize) (children node))"
proof -
  have path: "find_path node minimize
      = [node] @ concat (map (\<lambda>c. find_path c minimize) (children node))"
    using assms by (subst find_path.simps) (simp add: find_path_and_eq)
  have "path_score (find_path node minimize) minimize
      = path_score (concat (map (\<lambda>c. find_path c minimize) (children node))) minimize"
    using assms(1) by (simp add: path path_score_Cons_inner)
  then show ?thesis
    using path by (simp add: path_score_concat comp_def)
qed

theorem C2_and_concatenates_children_witness:
  "node_type and_root = AND \<and> children and_root \<noteq> []
    \<and> find_path and_root ''cost'' = [and_root, leaf_A, leaf_B]
    \<and> path_score (find_path and_root ''cost'') ''cost'' = 3"
  using C2_and_concatenates_children [of and_root "''cost''"]
  by (simp add: and_root_def find_path_single leaf_A_def leaf_B_def path_score_def
      default_attributes_def)

text \<open>
  Claim C1. For an OR node with a non-empty children list, \<^verbatim>\<open>_find_path\<close> returns
  the node followed by the best path of one child \<open>c\<close>; the returned path scores what
  the best path of \<open>c\<close> scores (the OR node adds nothing), which is at most the score of
  every child's best path; and \<open>c\<close> is the first child of minimal score: every child
  before it scores strictly more, every child after it at least as much.
\<close>

theorem C1_or_selects_first_minimum:
  assumes "node_type node = OR" and "children node \<noteq> []"
  shows "\<exists>before c after. children node = before @ c # after
    \<and> find_path node minimize = [node] @ find_path c minimize
    \<and> path_score (find_path node minimize) minimize = path_score (find_path c minimize) minimize
    \<and> (\<forall>x\<in>set (children node).
          path_score (find_path node minimize) minimize
            \<le> path_score (find_path x minimize) minimize)
    \<and> (\<forall>x\<in>set before.
          path_score (find_path c minimize) minimize < path_score (find_path x minimize) minimize)
    \<and> (\<forall>x\<in>set after.
          path_score (find_path c minimize) minimize \<le> path_score (find_path x minimize) minimize)"
proof -
  let ?s = "\<lambda>x. path_score (find_path x minimize) minimize"
  obtain rp rs where run: "find_path_or (children node) minimize None Infinity = (rp, rs)"
    by (cases "find_path_or (children node) minimize None Infinity")
  from find_path_or_split [OF run] obtain before c after where
    split: "children node = before @ c # after" and rp: "rp = Some (find_path c minimize)"
    and bef: "\<forall>x\<in>set before. ?s c < ?s x" and aft: "\<forall>x\<in>set after. ?s c \<le> ?s x"
    using assms(2) by (cases "children node") auto
  obtain rest where hd: "find_path c minimize = c # rest"
    using find_path_hd by blast
  have path: "find_path node minimize = [node] @ find_path c minimize"
    using assms run rp hd by (subst find_path.simps) simp
  have score: "?s node = ?s c"
    using assms(1) by (simp add: path path_score_Cons_inner)
  have "\<forall>x\<in>set (children node). ?s c \<le> ?s x"
    using split bef aft by auto
  with split path score bef aft show ?thesis
    by (intro exI [of _ before] exI [of _ c] exI [of _ after]) simp
qed


theorem C1_or_selects_first_minimum_witness:
  "node_type or_root = OR \<and> children or_root \<noteq> []
    \<and> (\<exists>before c after. children or_root = before @ c # after
      \<and> find_path or_root ''difficulty'' = [or_root] @ find_path c ''difficulty''
      \<and> path_score (find_path or_root ''difficulty'') ''difficulty''
          = path_score (find_path c ''difficulty'') ''difficulty''
      \<and> (\<forall>x\<in>set (children or_root).
            path_score (find_path or_root ''difficulty'') ''difficulty''
              \<le> path_score (find_path x ''difficulty'') ''difficulty'')
      \<and> (\<forall>x\<in>set before.
            path_score (find_path c ''difficulty'') ''difficulty''
              < path_score (find_path x ''difficulty'') ''difficulty'')
      \<and> (\<forall>x\<in>set after.
            path_score (find_path c ''difficulty'') ''difficulty''
              \<le> path_score (find_path x ''difficulty'') ''difficulty''))"
  using C1_or_selects_first_minimum [of or_root "''difficulty''"]
  by (simp add: or_root_def)

section \<open>Leaf enumeration: properties\<close>

lemma collect_leaves_children_eq:
  assumes "\<And>c leaves. c \<in> set cs \<Longrightarrow> collect_leaves c leaves = leaves @ f c"
  shows "collect_leaves_children cs leaves = leaves @ concat (map f cs)"
  using assms by (induction cs arbitrary: leaves) simp_all

lemma collect_leaves_eq:
  "collect_leaves node leaves = leaves @ filter (\<lambda>n. node_type n = LEAF) (preorder node)"
proof (induction node arbitrary: leaves rule: preorder.induct)
  case (1 node)
  have "collect_leaves_children (children node) acc
      = acc @ concat (map (\<lambda>c. filter (\<lambda>n. node_type n = LEAF) (preorder c)) (children node))"
    for acc
    by (rule collect_leaves_children_eq) (rule "1.IH")
  then show ?case
    by (subst collect_leaves.simps, subst preorder.simps)
       (simp add: filter_concat comp_def)
qed

text \<open>
  Claim C5. \<^verbatim>\<open>get_all_leaf_attacks\<close> returns the nodes of kind LEAF among the nodes
  reachable from the root, one entry per occurrence, in depth-first pre-order; so the
  number of returned leaves plus the number of non-leaf nodes is the number of nodes.
  \<^verbatim>\<open>get_unmitigated_attacks\<close> returns, in the same order, those of the returned leaves
  whose mitigations list is empty.
\<close>

theorem C5_leaf_enumeration:
  "get_all_leaf_attacks t = filter (\<lambda>n. node_type n = LEAF) (preorder (root t))
    \<and> length (get_all_leaf_attacks t)
         + length (filter (\<lambda>n. node_type n \<noteq> LEAF) (preorder (root t)))
        = length (preorder (root t))
    \<and> get_unmitigated_attacks t = filter (\<lambda>n. mitigations n = []) (get_all_leaf_attacks t)
    \<and> subseq (get_unmitigated_attacks t) (get_all_leaf_attacks t)"
proof -
  have leaves: "get_all_leaf_attacks t = filter (\<lambda>n. node_type n = LEAF) (preorder (root t))"
    by (simp add: get_all_leaf_attacks_def collect_leaves_eq)
  have count: "length (filter (\<lambda>n. node_type n = LEAF) xs)
      + length (filter (\<lambda>n. node_type n \<noteq> LEAF) xs) = length xs" for xs :: "AttackNode list"
    using sum_length_filter_compl [of "\<lambda>n. node_type n = LEAF" xs] by simp
  have sub: "subseq (get_unmitigated_attacks t) (get_all_leaf_attacks t)"
    unfolding get_unmitigated_attacks_def by (rule subseq_filter_left)
  show ?thesis
    using leaves count sub by (simp add: get_unmitigated_attacks_def)
qed

theorem C5_leaf_enumeration_witness:
  "get_all_leaf_attacks example_tree = [leaf_A, leaf_B]
    \<and> preorder (root example_tree) = [or_root, leaf_A, leaf_B]
    \<and> get_unmitigated_attacks example_tree = [leaf_A]"
  using C5_leaf_enumeration [of example_tree]
  by (simp add: example_tree_def or_root_def leaf_A_def leaf_B_def preorder.simps
      get_unmitigated_attacks_def)

section \<open>Serialization: properties\<close>

lemma dict_get_children:
  "list_items (dict_get (node_to_dict node) ''children'') = map node_to_dict (children node)"
  by (simp add: node_to_dict.simps)

lemma dict_get_id: "dict_get (node_to_dict node) ''id'' = Some (JString (ident node))"
  by (simp add: node_to_dict.simps)

lemma walk_dict_node_to_dict: "walk_dict (node_to_dict node) = map node_to_dict (preorder node)"
proof (induction node rule: preorder.induct)
  case (1 node)
  have "concat (map walk_dict (map node_to_dict (children node)))
      = concat (map (\<lambda>c. map node_to_dict (preorder c)) (children node))"
    using "1.IH" by (simp add: comp_def cong: map_cong)
  then show ?case
    by (subst walk_dict.simps, subst preorder.simps)
       (simp add: dict_get_children map_concat comp_def)
qed

lemma dict_id_tree_node_to_dict:
  "dict_id_tree (node_to_dict node) = map_rose (\<lambda>s. Some (JString s)) (node_id_tree node)"
proof (induction node rule: preorder.induct)
  case (1 node)
  then show ?case
    by (subst dict_id_tree.simps, subst node_id_tree.simps)
       (simp add: dict_get_children dict_get_id comp_def cong: map_cong)
qed

text \<open>
  Claim C6. Re-walking the structure built by \<^verbatim>\<open>to_dict\<close>, from its \<^verbatim>\<open>root\<close> entry
  along the nested \<^verbatim>\<open>children\<close> lists, visits the dictionaries of the tree's nodes in
  the pre-order of the tree: same node count, same \<^verbatim>\<open>id\<close> values, and the tree of
  ids read from the dictionaries is the tree of ids of the nodes (same parent/child
  ordering). Every node \<open>n\<close>, leaf or not, is emitted with id, name, description, type,
  attributes (difficulty, cost and detection risk by enum name, and the hours),
  mitigations, file references and the dictionaries of its children.
\<close>

theorem C6_to_dict_rewalk:
  "dict_get (to_dict t) ''root'' = Some (node_to_dict (root t))
    \<and> walk_dict (node_to_dict (root t)) = map node_to_dict (preorder (root t))
    \<and> length (walk_dict (node_to_dict (root t))) = length (preorder (root t))
    \<and> map (\<lambda>d. dict_get d ''id'') (walk_dict (node_to_dict (root t)))
        = map (\<lambda>n. Some (JString (ident n))) (preorder (root t))
    \<and> (\<lambda>d. dict_get d ''id'') ` set (walk_dict (node_to_dict (root t)))
        = (\<lambda>n. Some (JString (ident n))) ` set (preorder (root t))
    \<and> dict_id_tree (node_to_dict (root t))
        = map_rose (\<lambda>s. Some (JString s)) (node_id_tree (root t))
    \<and> dict_get (node_to_dict n) ''id'' = Some (JString (ident n))
    \<and> dict_get (node_to_dict n) ''name'' = Some (JString (name n))
    \<and> dict_get (node_to_dict n) ''description'' = Some (JString (description n))
    \<and> dict_get (node_to_dict n) ''type'' = Some (JString (NodeType_value (node_type n)))
    \<and> dict_get (node_to_dict n) ''attributes'' = Some (JDict
         [(''difficulty'', JString (Difficulty_name (difficulty (attributes n)))),
          (''cost'', JString (Cost_name (cost (attributes n)))),
          (''detection_risk'', JString (DetectionRisk_name (detection_risk (attributes n)))),
          (''time_hours'', JNumber (time_hours (attributes n)))])
    \<and> dict_get (node_to_dict n) ''mitigations'' = Some (JList (map JString (mitigations n)))
    \<and> dict_get (node_to_dict n) ''file_refs'' = Some (JList (map JString (file_refs n)))
    \<and> dict_get (node_to_dict n) ''children'' = Some (JList (map node_to_dict (children n)))"
proof -
  have ids: "map (\<lambda>d. dict_get d ''id'') (walk_dict (node_to_dict (root t)))
      = map (\<lambda>n. Some (JString (ident n))) (preorder (root t))"
    by (simp add: walk_dict_node_to_dict dict_get_id comp_def)
  have "set (map (\<lambda>d. dict_get d ''id'') (walk_dict (node_to_dict (root t))))
      = set (map (\<lambda>n. Some (JString (ident n))) (preorder (root t)))"
    by (simp only: ids)
  then have idset: "(\<lambda>d. dict_get d ''id'') ` set (walk_dict (node_to_dict (root t)))
      = (\<lambda>n. Some (JString (ident n))) ` set (preorder (root t))"
    by simp
  have fields: "dict_get (node_to_dict n) ''name'' = Some (JString (name n))"
    "dict_get (node_to_dict n) ''description'' = Some (JString (description n))"
    "dict_get (node_to_dict n) ''type'' = Some (JString (NodeType_value (node_type n)))"
    "dict_get (node_to_dict n) ''attributes'' = Some (JDict
         [(''difficulty'', JString (Difficulty_name (difficulty (attributes n)))),
          (''cost'', JString (Cost_name (cost (attributes n)))),
          (''detection_risk'', JString (DetectionRisk_name (detection_risk (attributes n)))),
          (''time_hours'', JNumber (time_hours (attributes n)))])"
    "dict_get (node_to_dict n) ''mitigations'' = Some (JList (map JString (mitigations n)))"
    "dict_get (node_to_dict n) ''file_refs'' = Some (JList (map JString (file_refs n)))"
    "dict_get (node_to_dict n) ''children'' = Some (JList (map node_to_dict (children n)))"
    by (simp_all add: node_to_dict.simps)
  have root: "dict_get (to_dict t) ''root'' = Some (node_to_dict (root t))"
    by (simp add: to_dict_def)
  show ?thesis
    by (intro conjI root walk_dict_node_to_dict ids idset dict_id_tree_node_to_dict
        dict_get_id fields) (simp add: walk_dict_node_to_dict)
qed

theorem C6_to_dict_rewalk_witness:
  "map (\<lambda>d. dict_get d ''id'') (walk_dict (node_to_dict (root example_tree)))
      = [Some (JString ''G''), Some (JString ''A''), Some (JString ''B'')]
    \<and> dict_id_tree (node_to_dict (root example_tree))
      = Rose (Some (JString ''G''))
          [Rose (Some (JString ''A'')) [], Rose (Some (JString ''B'')) []]
    \<and> dict_get (node_to_dict leaf_B) ''attributes'' = Some (JDict
         [(''difficulty'', JString ''HIGH''), (''cost'', JString ''MEDIUM''),
          (''detection_risk'', JString ''MEDIUM''), (''time_hours'', JNumber 8)])"
  using C6_to_dict_rewalk [of example_tree leaf_B]
  by (simp add: example_tree_def or_root_def leaf_A_def leaf_B_def preorder.simps
      node_id_tree.simps default_attributes_def walk_dict.simps node_to_dict.simps
      dict_id_tree.simps to_dict_def)

section \<open>Mermaid exporter: the walk\<close>

lemma export_node_eq:
  "export_node node p e =
     (let d = (case node_ids e (ident node) of
                 Some known \<Rightarrow> known | None \<Rightarrow> ''N'' @ str_nat (node_count e));
          e4 = e\<lparr>node_count := (case node_ids e (ident node) of
                                   Some known \<Rightarrow> node_count e | None \<Rightarrow> node_count e + 1),
                  node_ids := (node_ids e)(ident node \<mapsto> d),
                  lines := lines e @ visit_lines d node p\<rparr>
      in (d, export_children (children node) d e4))"
proof (cases "node_ids e (ident node)")
  case None
  show ?thesis
    by (subst export_node.simps, cases "node_type node"; cases p)
       (simp_all add: None Let_def visit_lines_def shape_of_def)
next
  case (Some known)
  then have idem: "(node_ids e)(ident node \<mapsto> known) = node_ids e"
    by (simp add: fun_upd_idem)
  show ?thesis
    by (subst export_node.simps, cases "node_type node"; cases p)
       (simp_all add: Some idem Let_def visit_lines_def shape_of_def)
qed

lemma export_node_unfold:
  "\<exists>d e4. export_node node p e = (d, export_children (children node) d e4)
     \<and> d = (case node_ids e (ident node) of
              Some known \<Rightarrow> known | None \<Rightarrow> ''N'' @ str_nat (node_count e))
     \<and> node_ids e4 = (node_ids e)(ident node \<mapsto> d)
     \<and> node_count e4 = (case node_ids e (ident node) of
              Some known \<Rightarrow> node_count e | None \<Rightarrow> node_count e + 1)
     \<and> lines e4 = lines e @ visit_lines d node p
     \<and> tree e4 = tree e"
proof -
  let ?d = "case node_ids e (ident node) of
              Some known \<Rightarrow> known | None \<Rightarrow> ''N'' @ str_nat (node_count e)"
  let ?e4 = "e\<lparr>node_count := (case node_ids e (ident node) of
                                   Some known \<Rightarrow> node_count e | None \<Rightarrow> node_count e + 1),
                node_ids := (node_ids e)(ident node \<mapsto> ?d),
                lines := lines e @ visit_lines ?d node p\<rparr>"
  show ?thesis
    by (rule exI [of _ ?d], rule exI [of _ ?e4]) (simp add: export_node_eq Let_def)
qed

lemma memo_step_refl: "memo_step e e {}"
  by (simp add: memo_step_def)

lemma memo_step_trans:
  "memo_step e e1 A \<Longrightarrow> memo_step e1 e2 B \<Longrightarrow> memo_step e e2 (A \<union> B)"
  unfolding memo_step_def by (auto intro: map_le_trans)

lemma memo_step_visit:
  assumes d: "d = (case node_ids e k of Some known \<Rightarrow> known | None \<Rightarrow> ''N'' @ str_nat (node_count e))"
    and ids: "node_ids e4 = (node_ids e)(k \<mapsto> d)"
    and count: "node_count e4 = (case node_ids e k of
              Some known \<Rightarrow> node_count e | None \<Rightarrow> node_count e + 1)"
  shows "memo_step e e4 {k}"
proof (cases "node_ids e k")
  case None
  then have fresh: "k \<notin> dom (node_ids e)" by auto
  have le: "node_ids e \<subseteq>\<^sub>m node_ids e4"
    using fresh ids by (simp add: map_le_def)
  have dom: "dom (node_ids e4) = dom (node_ids e) \<union> {k}"
    using ids by auto
  have ok: "memo_ok e4" if "memo_ok e"
  proof -
    from that have fin: "finite (dom (node_ids e))" and c: "node_count e = card (dom (node_ids e))"
      and ne: "[] \<notin> ran (node_ids e)"
      by (simp_all add: memo_ok_def)
    have "ran (node_ids e4) = insert d (ran (node_ids e))"
      using None ids by simp
    moreover have "d \<noteq> []" using d None by simp
    ultimately have "[] \<notin> ran (node_ids e4)" using ne by auto
    moreover have "card (dom (node_ids e4)) = Suc (card (dom (node_ids e)))"
      using fin fresh ids by simp
    ultimately show ?thesis
      using fin c count None ids by (simp add: memo_ok_def)
  qed
  show ?thesis using le dom ok by (simp add: memo_step_def)
next
  case (Some known)
  then have "node_ids e4 = node_ids e" "node_count e4 = node_count e" "k \<in> dom (node_ids e)"
    using d ids count by (auto simp: fun_upd_idem)
  then show ?thesis
    by (auto simp: memo_step_def memo_ok_def)
qed

lemma memo_step_children:
  assumes "\<And>c p e. c \<in> set cs \<Longrightarrow> memo_step e (snd (export_node c p e)) (ident ` set (preorder c))"
  shows "memo_step e (export_children cs d e) (ident ` (\<Union>c\<in>set cs. set (preorder c)))"
  using assms
proof (induction cs arbitrary: e)
  case Nil
  then show ?case by (simp add: memo_step_refl)
next
  case (Cons c cs)
  have "memo_step e (snd (export_node c (Some d) e)) (ident ` set (preorder c))"
    by (rule Cons.prems) simp
  moreover have "memo_step (snd (export_node c (Some d) e))
      (export_children cs d (snd (export_node c (Some d) e)))
      (ident ` (\<Union>c\<in>set cs. set (preorder c)))"
    by (rule Cons.IH) (simp add: Cons.prems)
  ultimately have "memo_step e (export_children cs d (snd (export_node c (Some d) e)))
      (ident ` set (preorder c) \<union> ident ` (\<Union>c\<in>set cs. set (preorder c)))"
    by (rule memo_step_trans)
  then show ?case by (simp add: image_Un)
qed

lemma set_preorder:
  "set (preorder node) = insert node (\<Union>c\<in>set (children node). set (preorder c))"
  by (subst preorder.simps) simp

lemma memo_step_node:
  "memo_step e (snd (export_node node p e)) (ident ` set (preorder node))"
proof (induction node arbitrary: p e rule: preorder.induct)
  case (1 node)
  obtain d e4 where run: "export_node node p e = (d, export_children (children node) d e4)"
    and d: "d = (case node_ids e (ident node) of
              Some known \<Rightarrow> known | None \<Rightarrow> ''N'' @ str_nat (node_count e))"
    and ids: "node_ids e4 = (node_ids e)(ident node \<mapsto> d)"
    and count: "node_count e4 = (case node_ids e (ident node) of
              Some known \<Rightarrow> node_count e | None \<Rightarrow> node_count e + 1)"
    using export_node_unfold [of node p e] by blast
  have "memo_step e e4 {ident node}"
    using d ids count by (rule memo_step_visit)
  moreover have "memo_step e4 (export_children (children node) d e4)
      (ident ` (\<Union>c\<in>set (children node). set (preorder c)))"
    by (rule memo_step_children) (rule "1.IH")
  ultimately have "memo_step e (export_children (children node) d e4)
      ({ident node} \<union> ident ` (\<Union>c\<in>set (children node). set (preorder c)))"
    by (rule memo_step_trans)
  moreover have "ident ` set (preorder node)
      = {ident node} \<union> ident ` (\<Union>c\<in>set (children node). set (preorder c))"
    by (subst set_preorder) simp
  ultimately show ?case
    by (simp add: run)
qed

lemma memo_step_export_children:
  "memo_step e (export_children cs d e) (ident ` (\<Union>c\<in>set cs. set (preorder c)))"
  by (rule memo_step_children) (rule memo_step_node)

lemma export_node_memo_self:
  "node_ids (snd (export_node node p e)) (ident node) = Some (fst (export_node node p e))"
proof -
  obtain d e4 where run: "export_node node p e = (d, export_children (children node) d e4)"
    and ids: "node_ids e4 = (node_ids e)(ident node \<mapsto> d)"
    using export_node_unfold [of node p e] by blast
  have "node_ids e4 \<subseteq>\<^sub>m node_ids (export_children (children node) d e4)"
    using memo_step_export_children [of e4 "children node" d] by (simp add: memo_step_def)
  moreover have "node_ids e4 (ident node) = Some d" using ids by simp
  ultimately have "node_ids (export_children (children node) d e4) (ident node) = Some d"
    by (metis domI map_le_def)
  then show ?thesis by (simp add: run)
qed

lemma lines_export_children:
  assumes child: "\<And>c p e M. c \<in> set cs \<Longrightarrow> node_ids (snd (export_node c p e)) \<subseteq>\<^sub>m M
      \<Longrightarrow> lines (snd (export_node c p e)) = lines e @ tree_lines M c p"
    and M: "node_ids (export_children cs d e) \<subseteq>\<^sub>m M"
  shows "lines (export_children cs d e) = lines e @ concat (map (\<lambda>c. tree_lines M c (Some d)) cs)"
  using assms
proof (induction cs arbitrary: e)
  case Nil
  then show ?case by simp
next
  case (Cons c cs)
  let ?e1 = "snd (export_node c (Some d) e)"
  have rest: "node_ids (export_children cs d ?e1) \<subseteq>\<^sub>m M"
    using Cons.prems(2) by simp
  have "node_ids ?e1 \<subseteq>\<^sub>m node_ids (export_children cs d ?e1)"
    using memo_step_export_children [of ?e1 cs d] by (simp add: memo_step_def)
  then have "node_ids ?e1 \<subseteq>\<^sub>m M"
    using rest by (rule map_le_trans)
  then have first: "lines ?e1 = lines e @ tree_lines M c (Some d)"
    by (intro Cons.prems(1)) simp_all
  have "lines (export_children cs d ?e1)
      = lines ?e1 @ concat (map (\<lambda>c. tree_lines M c (Some d)) cs)"
    by (rule Cons.IH) (simp_all add: Cons.prems(1) rest)
  with first show ?case by simp
qed

lemma lines_export_node:
  "node_ids (snd (export_node node p e)) \<subseteq>\<^sub>m M
    \<Longrightarrow> lines (snd (export_node node p e)) = lines e @ tree_lines M node p"
proof (induction node arbitrary: p e M rule: preorder.induct)
  case (1 node)
  obtain d e4 where run: "export_node node p e = (d, export_children (children node) d e4)"
    and own: "lines e4 = lines e @ visit_lines d node p"
    using export_node_unfold [of node p e] by blast
  have final: "node_ids (export_children (children node) d e4) \<subseteq>\<^sub>m M"
    using "1.prems" by (simp add: run)
  have "node_ids (snd (export_node node p e)) (ident node) = Some d"
    using export_node_memo_self [of node p e] by (simp add: run)
  then have d: "the (M (ident node)) = d"
    using "1.prems" by (metis domI map_le_def option.sel)
  have "lines (export_children (children node) d e4)
      = lines e4 @ concat (map (\<lambda>c. tree_lines M c (Some d)) (children node))"
    using "1.IH" final by (rule lines_export_children)
  then show ?case
    by (subst tree_lines.simps) (simp add: run own d)
qed

section \<open>Mermaid exporter: the emitted lines\<close>

lemma filter_Shape_visit: "filter is_Shape (visit_lines d node p) = [Shape (shape_of d node)]"
  by (simp add: visit_lines_def split: option.splits)

lemma filter_Style_visit:
  "filter is_Style (visit_lines d node p)
     = (if node_type node = LEAF then [Style d (get_leaf_style node)] else [])"
  by (simp add: visit_lines_def split: option.splits)

lemma filter_Edge_visit:
  "filter is_Edge (visit_lines d node p)
     = (case p of None \<Rightarrow> []
        | Some q \<Rightarrow> if q = [] then []
                    else [Edge q (if node_type node = AND then ''==>'' else ''-->'') d])"
  by (simp add: visit_lines_def split: option.splits)

lemma filter_Shape_tree_lines:
  "filter is_Shape (tree_lines M node p)
     = map (\<lambda>n. Shape (shape_of (the (M (ident n))) n)) (preorder node)"
proof (induction node arbitrary: p rule: preorder.induct)
  case (1 node)
  have "concat (map (\<lambda>c. filter is_Shape (tree_lines M c (Some (the (M (ident node))))))
          (children node))
      = concat (map (\<lambda>c. map (\<lambda>n. Shape (shape_of (the (M (ident n))) n)) (preorder c))
          (children node))"
    using "1.IH" by (simp cong: map_cong)
  then show ?case
    by (subst tree_lines.simps, subst preorder.simps)
       (simp add: filter_Shape_visit filter_concat map_concat comp_def)
qed

lemma filter_Style_tree_lines:
  "filter is_Style (tree_lines M node p)
     = map (\<lambda>n. Style (the (M (ident n))) (get_leaf_style n))
         (filter (\<lambda>n. node_type n = LEAF) (preorder node))"
proof (induction node arbitrary: p rule: preorder.induct)
  case (1 node)
  have "concat (map (\<lambda>c. filter is_Style (tree_lines M c (Some (the (M (ident node))))))
          (children node))
      = concat (map (\<lambda>c. map (\<lambda>n. Style (the (M (ident n))) (get_leaf_style n))
          (filter (\<lambda>n. node_type n = LEAF) (preorder c))) (children node))"
    using "1.IH" by (simp cong: map_cong)
  then show ?case
    by (subst tree_lines.simps, subst preorder.simps)
       (simp add: filter_Style_visit filter_concat map_concat comp_def)
qed

lemma filter_Edge_tree_lines:
  assumes "\<forall>n\<in>set (preorder node). the (M (ident n)) \<noteq> []"
  shows "filter is_Edge (tree_lines M node p)
     = (case p of None \<Rightarrow> []
        | Some q \<Rightarrow> if q = [] then []
            else [Edge q (if node_type node = AND then ''==>'' else ''-->'')
                    (the (M (ident node)))])
       @ map (\<lambda>(parent, child). Edge (the (M (ident parent)))
                (if node_type child = AND then ''==>'' else ''-->'') (the (M (ident child))))
           (tree_edges node)"
  using assms
proof (induction node arbitrary: p rule: preorder.induct)
  case (1 node)
  let ?d = "the (M (ident node))"
  let ?edge = "\<lambda>(parent, child). Edge (the (M (ident parent)))
                (if node_type child = AND then ''==>'' else ''-->'') (the (M (ident child)))"
  have d: "?d \<noteq> []"
    using "1.prems" by (subst (asm) set_preorder) simp
  have child: "filter is_Edge (tree_lines M c (Some ?d)) = map ?edge ((node, c) # tree_edges c)"
    if "c \<in> set (children node)" for c
  proof -
    have "\<forall>n\<in>set (preorder c). the (M (ident n)) \<noteq> []"
      using "1.prems" that by (subst (asm) set_preorder) auto
    with "1.IH" [OF that, of "Some ?d"] show ?thesis
      using d by simp
  qed
  have "concat (map (\<lambda>c. filter is_Edge (tree_lines M c (Some ?d))) (children node))
      = concat (map (\<lambda>c. map ?edge ((node, c) # tree_edges c)) (children node))"
    using child by (simp cong: map_cong)
  also have "\<dots> = map ?edge (tree_edges node)"
    by (subst tree_edges.simps) (simp add: map_concat comp_def)
  finally show ?case
    by (subst tree_lines.simps) (simp add: filter_Edge_visit filter_concat comp_def)
qed

lemma length_tree_edges: "Suc (length (tree_edges node)) = length (preorder node)"
proof (induction node rule: preorder.induct)
  case (1 node)
  have "sum_list (map (\<lambda>c. Suc (length (tree_edges c))) (children node))
      = sum_list (map (\<lambda>c. length (preorder c)) (children node))"
    using "1.IH" by (simp cong: map_cong)
  then show ?case
    by (subst tree_edges.simps, subst preorder.simps)
       (simp add: length_concat comp_def)
qed

section \<open>Mermaid exporter: a whole export\<close>

lemma memo_ok_init: "memo_ok (MermaidExporter_init t\<lparr>lines := ls\<rparr>)"
  by (simp add: memo_ok_def MermaidExporter_init_def)

lemma exported_eq:
  "exported t = add_legend (snd (export_node (root t) None
      (MermaidExporter_init t\<lparr>lines := [Text ''flowchart TD'']\<rparr>)))"
  by (simp add: exported_def export_def Let_def MermaidExporter_init_def)

lemma exported_memo:
  "memo_ok (exported t)"
  "dom (node_ids (exported t)) = ident ` set (preorder (root t))"
proof -
  let ?e0 = "MermaidExporter_init t\<lparr>lines := [Text ''flowchart TD'']\<rparr>"
  let ?e2 = "snd (export_node (root t) None ?e0)"
  have step: "memo_step ?e0 ?e2 (ident ` set (preorder (root t)))"
    by (rule memo_step_node)
  have ids: "node_ids (exported t) = node_ids ?e2" "node_count (exported t) = node_count ?e2"
    by (simp_all add: exported_eq add_legend_def)
  have "memo_ok ?e2"
    using step memo_ok_init by (simp add: memo_step_def)
  then show "memo_ok (exported t)"
    using ids by (simp add: memo_ok_def)
  have "dom (node_ids ?e0) = {}"
    by (simp add: MermaidExporter_init_def)
  then show "dom (node_ids (exported t)) = ident ` set (preorder (root t))"
    using step ids by (simp add: memo_step_def)
qed

lemma exported_lines:
  "lines (exported t)
     = Text ''flowchart TD'' # tree_lines (node_ids (exported t)) (root t) None
       @ lines (add_legend (MermaidExporter_init t))"
proof -
  let ?e0 = "MermaidExporter_init t\<lparr>lines := [Text ''flowchart TD'']\<rparr>"
  let ?e2 = "snd (export_node (root t) None ?e0)"
  have ids: "node_ids (exported t) = node_ids ?e2"
    by (simp add: exported_eq add_legend_def)
  have "lines ?e2 = lines ?e0 @ tree_lines (node_ids ?e2) (root t) None"
    by (rule lines_export_node) simp
  then show ?thesis
    by (simp add: ids) (simp add: exported_eq add_legend_def MermaidExporter_init_def)
qed

lemma diagram_id_nonempty:
  "n \<in> set (preorder (root t)) \<Longrightarrow> diagram_id t n \<noteq> []"
proof -
  assume "n \<in> set (preorder (root t))"
  then have "ident n \<in> dom (node_ids (exported t))"
    by (simp add: exported_memo(2))
  then obtain d where d: "node_ids (exported t) (ident n) = Some d"
    by auto
  then have "d \<in> ran (node_ids (exported t))"
    by (auto simp: ran_def)
  moreover have "[] \<notin> ran (node_ids (exported t))"
    using exported_memo(1) [of t] by (simp add: memo_ok_def)
  ultimately show ?thesis
    using d by (auto simp: diagram_id_def)
qed

lemma exported_shapes:
  "filter is_Shape (lines (exported t))
     = map (\<lambda>n. Shape (shape_of (diagram_id t n) n)) (preorder (root t))"
  by (subst exported_lines)
     (simp add: filter_Shape_tree_lines add_legend_def MermaidExporter_init_def diagram_id_def)

lemma exported_styles:
  "filter is_Style (lines (exported t))
     = map (\<lambda>n. Style (diagram_id t n) (get_leaf_style n))
         (filter (\<lambda>n. node_type n = LEAF) (preorder (root t)))"
  by (subst exported_lines)
     (simp add: filter_Style_tree_lines add_legend_def MermaidExporter_init_def diagram_id_def)

lemma exported_edges:
  "filter is_Edge (lines (exported t))
     = map (\<lambda>(parent, child). Edge (diagram_id t parent)
              (if node_type child = AND then ''==>'' else ''-->'') (diagram_id t child))
         (tree_edges (root t))"
proof -
  have "\<forall>n\<in>set (preorder (root t)). the (node_ids (exported t) (ident n)) \<noteq> []"
    using diagram_id_nonempty [of _ t] by (simp add: diagram_id_def)
  then show ?thesis
    by (subst exported_lines)
       (simp add: filter_Edge_tree_lines add_legend_def MermaidExporter_init_def
          diagram_id_def [abs_def])
qed

section \<open>Mermaid exporter: the example trees\<close>

lemma tree_edges_AttackNode:
  "tree_edges (AttackNode i n d k a cs ms cv fr)
     = concat (map (\<lambda>c. (AttackNode i n d k a cs ms cv fr, c) # tree_edges c) cs)"
  by (subst tree_edges.simps) simp

lemmas export_eval =
  exported_eq export_node_eq Let_def MermaidExporter_init_def add_legend_def str_nat.simps
  visit_lines_def shape_of_def get_leaf_style_def colors_def default_attributes_def
  leaf_A_def leaf_B_def leaf_A2_def and_step_def or_root_def

lemma example_tree_ids:
  "node_ids (exported example_tree) = [''G'' \<mapsto> ''N0'', ''A'' \<mapsto> ''N1'', ''B'' \<mapsto> ''N2'']"
  by (simp add: example_tree_def export_eval)

lemma example_tree_lines:
  "filter is_Edge (lines (exported example_tree))
     = [Edge ''N0'' ''-->'' ''N1'', Edge ''N0'' ''-->'' ''N2'']"
  "filter is_Shape (lines (exported example_tree))
     = [Shape (shape_of ''N0'' or_root), Shape (shape_of ''N1'' leaf_A),
        Shape (shape_of ''N2'' leaf_B)]"
  "filter is_Style (lines (exported example_tree))
     = [Style ''N1'' ''fill:#ff6b6b,stroke:#c92a2a,stroke-width:3px'',
        Style ''N2'' ''fill:#d3f9d8,stroke:#51cf66,stroke-width:3px'']"
  by (simp_all add: example_tree_def export_eval)

lemma layered_tree_edges:
  "filter is_Edge (lines (exported layered_tree))
     = [Edge ''N0'' ''==>'' ''N1'', Edge ''N1'' ''-->'' ''N2'']"
  by (simp add: layered_tree_def export_eval)

lemma clash_tree_export:
  "node_ids (exported clash_tree) = [''G'' \<mapsto> ''N0'', ''A'' \<mapsto> ''N1'']"
  "node_count (exported clash_tree) = 2"
  "filter is_Shape (lines (exported clash_tree))
     = [Shape (shape_of ''N0'' (root clash_tree)), Shape (shape_of ''N1'' leaf_A),
        Shape (shape_of ''N1'' leaf_A2)]"
  by (simp_all add: clash_tree_def export_eval)

section \<open>Mermaid exporter: properties\<close>

text \<open>
  Claim C4, as the code has it. The edge lines of an export are, in walk order, one line
  per (parent, child) pair of the tree, hence exactly one per node that has a parent;
  each runs from the parent's diagram identifier to the child's. The connector is
  \<^verbatim>\<open>==>\<close> exactly when the kind of the child (the node the edge leads to) is AND, and
  \<^verbatim>\<open>-->\<close> when the child is an OR or a LEAF node; the kind of the parent plays no part.
\<close>

theorem C4_edge_per_child_connector_by_child:
  "filter is_Edge (lines (exported t))
     = map (\<lambda>(parent, child). Edge (diagram_id t parent)
              (if node_type child = AND then ''==>'' else ''-->'') (diagram_id t child))
         (tree_edges (root t))"
  by (rule exported_edges)

theorem C4_edge_per_child_connector_by_child_witness:
  "tree_edges (root example_tree) = [(or_root, leaf_A), (or_root, leaf_B)]
    \<and> filter is_Edge (lines (exported example_tree))
        = [Edge ''N0'' ''-->'' ''N1'', Edge ''N0'' ''-->'' ''N2'']"
proof -
  have edges: "tree_edges (root example_tree) = [(or_root, leaf_A), (or_root, leaf_B)]"
    by (simp add: example_tree_def or_root_def leaf_A_def leaf_B_def tree_edges_AttackNode)
  have ids: "diagram_id example_tree or_root = ''N0''" "diagram_id example_tree leaf_A = ''N1''"
    "diagram_id example_tree leaf_B = ''N2''"
    by (simp_all add: diagram_id_def example_tree_ids or_root_def leaf_A_def leaf_B_def)
  have kinds: "node_type leaf_A = LEAF" "node_type leaf_B = LEAF"
    by (simp_all add: leaf_A_def leaf_B_def)
  from C4_edge_per_child_connector_by_child [of example_tree] show ?thesis
    by (simp add: edges ids kinds)
qed

text \<open>
  The claim as written fails on an OR goal over an AND step over a leaf: the edge out of
  the OR root is drawn \<^verbatim>\<open>==>\<close>, the edge out of the AND step is drawn \<^verbatim>\<open>-->\<close>.
\<close>

theorem C4_connector_by_parent_counterexample:
  "node_type (root layered_tree) = OR
    \<and> children (root layered_tree) = [and_step]
    \<and> node_type and_step = AND
    \<and> children and_step = [leaf_A]
    \<and> node_type leaf_A = LEAF
    \<and> filter is_Edge (lines (exported layered_tree))
        = [Edge ''N0'' ''==>'' ''N1'', Edge ''N1'' ''-->'' ''N2'']
    \<and> map render_line (filter is_Edge (lines (exported layered_tree)))
        = [''    N0 ==> N1'', ''    N1 --> N2'']"
  by (simp add: layered_tree_edges) (simp add: layered_tree_def and_step_def leaf_A_def)

text \<open>
  Claim C7. When the ids of the nodes of a tree are pairwise distinct, an export emits as
  many node-declaration lines as there are distinct ids, which is the number of nodes, and
  one edge line less than there are nodes.
\<close>

theorem C7_line_counts:
  assumes "distinct (map ident (preorder (root t)))"
  shows "length (filter is_Shape (lines (exported t))) = card (ident ` set (preorder (root t)))
    \<and> card (ident ` set (preorder (root t))) = length (preorder (root t))
    \<and> length (filter is_Edge (lines (exported t))) = length (preorder (root t)) - 1"
proof -
  have "card (set (map ident (preorder (root t)))) = length (map ident (preorder (root t)))"
    using assms by (rule distinct_card)
  then have ids: "card (ident ` set (preorder (root t))) = length (preorder (root t))"
    by simp
  have shapes: "length (filter is_Shape (lines (exported t))) = length (preorder (root t))"
    by (simp add: exported_shapes)
  have "length (filter is_Edge (lines (exported t))) = length (tree_edges (root t))"
    by (simp add: exported_edges)
  then have edges: "length (filter is_Edge (lines (exported t))) = length (preorder (root t)) - 1"
    using length_tree_edges [of "root t"] by simp
  show ?thesis
    using ids shapes edges by simp
qed

theorem C7_line_counts_witness:
  "distinct (map ident (preorder (root example_tree)))
    \<and> length (filter is_Shape (lines (exported example_tree))) = 3
    \<and> card (ident ` set (preorder (root example_tree))) = 3
    \<and> length (preorder (root example_tree)) = 3
    \<and> length (filter is_Edge (lines (exported example_tree))) = 2"
proof -
  have pre: "preorder (root example_tree) = [or_root, leaf_A, leaf_B]"
    by (simp add: example_tree_def or_root_def leaf_A_def leaf_B_def preorder.simps)
  have d: "distinct (map ident (preorder (root example_tree)))"
    by (simp add: pre or_root_def leaf_A_def leaf_B_def)
  from C7_line_counts [OF d] show ?thesis
    using d by (simp add: pre)
qed

text \<open>
  Claim C8. An export emits one style directive per LEAF node of the tree, in walk order,
  whose value is \<^verbatim>\<open>_get_leaf_style\<close> of the leaf: the fixed mitigated combination
  (fill \<^verbatim>\<open>#d3f9d8\<close>, green stroke \<^verbatim>\<open>#51cf66\<close>) when the leaf's mitigations list is
  non-empty, and otherwise the entry of the five-entry colour table for the leaf's
  difficulty. The value is the mitigated combination exactly when the list is non-empty.
\<close>

theorem C8_leaf_style:
  "filter is_Style (lines (exported t))
     = map (\<lambda>n. Style (diagram_id t n) (get_leaf_style n))
         (filter (\<lambda>n. node_type n = LEAF) (preorder (root t)))
    \<and> get_leaf_style n
        = (if mitigations n \<noteq> [] then ''fill:#d3f9d8,stroke:#51cf66,stroke-width:3px''
           else the (map_of colors (difficulty (attributes n))))
    \<and> map_of colors (difficulty (attributes n)) \<noteq> None
    \<and> length colors = 5
    \<and> (get_leaf_style n = ''fill:#d3f9d8,stroke:#51cf66,stroke-width:3px''
          \<longleftrightarrow> mitigations n \<noteq> [])"
proof -
  have table: "map_of colors (difficulty (attributes n)) \<noteq> None"
    by (cases "difficulty (attributes n)") (simp_all add: colors_def)
  have style: "get_leaf_style n
      = (if mitigations n \<noteq> [] then ''fill:#d3f9d8,stroke:#51cf66,stroke-width:3px''
         else the (map_of colors (difficulty (attributes n))))"
    using table by (auto simp: get_leaf_style_def Let_def)
  have other: "the (map_of colors (difficulty (attributes n)))
      \<noteq> ''fill:#d3f9d8,stroke:#51cf66,stroke-width:3px''"
    by (cases "difficulty (attributes n)") (simp_all add: colors_def)
  have iff: "get_leaf_style n = ''fill:#d3f9d8,stroke:#51cf66,stroke-width:3px''
      \<longleftrightarrow> mitigations n \<noteq> []"
    using other by (simp add: style)
  have len: "length colors = 5"
    by (simp add: colors_def)
  show ?thesis
    by (intro conjI exported_styles style table len iff)
qed

theorem C8_leaf_style_witness:
  "filter is_Style (lines (exported example_tree))
     = [Style ''N1'' ''fill:#ff6b6b,stroke:#c92a2a,stroke-width:3px'',
        Style ''N2'' ''fill:#d3f9d8,stroke:#51cf66,stroke-width:3px'']
    \<and> mitigations leaf_A = [] \<and> difficulty (attributes leaf_A) = TRIVIAL
    \<and> mitigations leaf_B \<noteq> []
    \<and> get_leaf_style leaf_B = ''fill:#d3f9d8,stroke:#51cf66,stroke-width:3px''"
  using C8_leaf_style [of example_tree leaf_B]
  by (simp add: example_tree_lines) (simp add: leaf_A_def leaf_B_def default_attributes_def)

text \<open>
  Claim C9. When two nodes of a tree, the \<open>i\<close>-th and the later \<open>j\<close>-th of the walk,
  carry the same \<^verbatim>\<open>id\<close>, the declaration lines of both use one diagram identifier,
  the one the memo holds for that id: the later node draws no fresh identifier. The
  counter ends at the number of distinct ids, below the number of nodes.
\<close>

theorem C9_shared_id_shares_identifier:
  assumes "i < j" and "j < length (preorder (root t))"
    and "ident (preorder (root t) ! i) = ident (preorder (root t) ! j)"
  shows "node_ids (exported t) (ident (preorder (root t) ! i))
      = Some (diagram_id t (preorder (root t) ! i))
    \<and> filter is_Shape (lines (exported t)) ! i
      = Shape (shape_of (diagram_id t (preorder (root t) ! i)) (preorder (root t) ! i))
    \<and> filter is_Shape (lines (exported t)) ! j
      = Shape (shape_of (diagram_id t (preorder (root t) ! i)) (preorder (root t) ! j))
    \<and> node_count (exported t) = card (ident ` set (preorder (root t)))
    \<and> node_count (exported t) < length (preorder (root t))"
proof -
  let ?P = "preorder (root t)"
  from assms have i: "i < length ?P" by simp
  have same: "diagram_id t (?P ! j) = diagram_id t (?P ! i)"
    using assms(3) by (simp add: diagram_id_def)
  have "ident (?P ! i) \<in> dom (node_ids (exported t))"
    using i by (simp add: exported_memo(2))
  then have memo: "node_ids (exported t) (ident (?P ! i)) = Some (diagram_id t (?P ! i))"
    by (auto simp: diagram_id_def)
  have first: "filter is_Shape (lines (exported t)) ! i
      = Shape (shape_of (diagram_id t (?P ! i)) (?P ! i))"
    using i by (simp add: exported_shapes)
  have second: "filter is_Shape (lines (exported t)) ! j
      = Shape (shape_of (diagram_id t (?P ! i)) (?P ! j))"
    using assms(2) same by (simp add: exported_shapes)
  have count: "node_count (exported t) = card (ident ` set ?P)"
    using exported_memo [of t] by (simp add: memo_ok_def)
  have "\<not> distinct (map ident ?P)"
  proof
    assume "distinct (map ident ?P)"
    then have "(map ident ?P ! i = map ident ?P ! j) = (i = j)"
      using i assms(2) by (intro nth_eq_iff_index_eq) simp_all
    then show False
      using assms i by simp
  qed
  then have "card (set (map ident ?P)) \<noteq> length (map ident ?P)"
    using card_distinct by blast
  moreover have "card (set (map ident ?P)) \<le> length (map ident ?P)"
    by (rule card_length)
  ultimately have less: "card (ident ` set ?P) < length ?P"
    by simp
  show ?thesis
    using memo first second count less by simp
qed

theorem C9_shared_id_shares_identifier_witness:
  "(1::nat) < 2 \<and> 2 < length (preorder (root clash_tree))
    \<and> preorder (root clash_tree) ! 1 = leaf_A \<and> preorder (root clash_tree) ! 2 = leaf_A2
    \<and> ident leaf_A = ident leaf_A2 \<and> leaf_A \<noteq> leaf_A2
    \<and> node_ids (exported clash_tree) (ident leaf_A) = Some ''N1''
    \<and> filter is_Shape (lines (exported clash_tree)) ! 1 = Shape (shape_of ''N1'' leaf_A)
    \<and> filter is_Shape (lines (exported clash_tree)) ! 2 = Shape (shape_of ''N1'' leaf_A2)
    \<and> node_count (exported clash_tree) = 2"
proof -
  have pre: "preorder (root clash_tree) = [root clash_tree, leaf_A, leaf_A2]"
    by (simp add: clash_tree_def leaf_A_def leaf_A2_def preorder.simps)
  have ids: "ident leaf_A = ident leaf_A2" "leaf_A \<noteq> leaf_A2" "ident leaf_A = ''A''"
    by (simp_all add: leaf_A_def leaf_A2_def)
  have hyp: "(1::nat) < 2" "2 < length (preorder (root clash_tree))"
    "ident (preorder (root clash_tree) ! 1) = ident (preorder (root clash_tree) ! 2)"
    by (simp_all add: pre ids)
  have d: "diagram_id clash_tree leaf_A = ''N1''"
    by (simp add: diagram_id_def clash_tree_export(1) ids(3))
  from C9_shared_id_shares_identifier [OF hyp] show ?thesis
    using ids by (simp add: pre d clash_tree_export(2))
qed


end
